theory Spec2Isabelle
  imports Main "HOL-Library.Finite_Map"
begin

section \<open>The sequence store of the client (controllers/state.ts)\<close>

text \<open>
  The class \<^verbatim>\<open>State<Sequence = any>\<close> keeps a JavaScript \<^verbatim>\<open>Map\<close> from topics to
  sequences, restores it once from the client's storage, and writes the whole value list
  back after every \<^verbatim>\<open>created\<close>, \<^verbatim>\<open>updated\<close> or \<^verbatim>\<open>deleted\<close> event.

  The store is generic over \<^verbatim>\<open>Sequence\<close> (default \<^verbatim>\<open>any\<close>) and reads whatever the storage
  adapter hands back, so the values are modelled as JavaScript data: the primitives, arrays
  and plain objects. Numbers are integers here (no claim depends on fractions or NaN), and an
  object is the finite map of its own properties (the order of properties is never observed
  by the store).
\<close>

subsection \<open>JavaScript values\<close>

datatype jsval =
    JUndefined
  | JNull
  | JBool bool
  | JNum int
  | JStr string
  | JArr "jsval list"
  | JObj "(string, jsval) fmap"

text \<open>What the code can throw: the two formatted errors of \<^verbatim>\<open>ERROR\<close> (the table of
  messages is in another package, so each error is kept as a tagged value carrying the
  arguments of \<^verbatim>\<open>format\<close>), the \<^verbatim>\<open>TypeError\<close> of the language, and the rejection of a
  storage promise with its reason.\<close>

datatype error =
    NO_MATCHING_TOPIC string string
  | RESTORE_WILL_OVERRIDE string
  | TypeError
  | Rejected jsval

text \<open>An \<^verbatim>\<open>async\<close> call settles by returning or by throwing, or stays suspended at an
  \<^verbatim>\<open>await\<close> whose promise is never resolved.\<close>

datatype 'a outcome = Returned 'a | Threw error | Suspended

text \<open>The behaviour of a promise handed out by the storage adapter.\<close>

datatype 'a settled = Resolves 'a | Rejects jsval | Never_settles

text \<open>\<^verbatim>\<open>!v\<close> is true exactly when \<open>v\<close> is not truthy.\<close>

fun truthy :: "jsval \<Rightarrow> bool" where
  "truthy JUndefined = False"
| "truthy JNull = False"
| "truthy (JBool b) = b"
| "truthy (JNum n) = (n \<noteq> 0)"
| "truthy (JStr s) = (s \<noteq> [])"
| "truthy (JArr xs) = True"
| "truthy (JObj fs) = True"

text \<open>The two property reads of the source, \<^verbatim>\<open>v.length\<close> and \<^verbatim>\<open>v.topic\<close>. Reading a property
  of \<^verbatim>\<open>undefined\<close> or \<^verbatim>\<open>null\<close> throws; a property that is not there reads as
  \<^verbatim>\<open>undefined\<close>.\<close>

fun js_length :: "jsval \<Rightarrow> error + jsval" where
  "js_length JUndefined = Inl TypeError"
| "js_length JNull = Inl TypeError"
| "js_length (JBool b) = Inr JUndefined"
| "js_length (JNum n) = Inr JUndefined"
| "js_length (JStr s) = Inr (JNum (int (length s)))"
| "js_length (JArr xs) = Inr (JNum (int (length xs)))"
| "js_length (JObj fs) =
     Inr (case fmlookup fs ''length'' of None \<Rightarrow> JUndefined | Some v \<Rightarrow> v)"

fun js_topic :: "jsval \<Rightarrow> error + jsval" where
  "js_topic JUndefined = Inl TypeError"
| "js_topic JNull = Inl TypeError"
| "js_topic (JBool b) = Inr JUndefined"
| "js_topic (JNum n) = Inr JUndefined"
| "js_topic (JStr s) = Inr JUndefined"
| "js_topic (JArr xs) = Inr JUndefined"
| "js_topic (JObj fs) =
     Inr (case fmlookup fs ''topic'' of None \<Rightarrow> JUndefined | Some v \<Rightarrow> v)"

text \<open>Object spread \<^verbatim>\<open>{ ...a, ...b }\<close> copies the own enumerable properties of \<open>a\<close>, then
  those of \<open>b\<close>. An object spreads its properties, an array and a string spread their
  elements under the decimal index, every other value spreads nothing.\<close>

fun index_key :: "nat \<Rightarrow> string" where
  "index_key n =
     (if n < 10 then [char_of (48 + n)]
      else index_key (n div 10) @ [char_of (48 + n mod 10)])"

declare index_key.simps [simp del]

fun own_props :: "jsval \<Rightarrow> (string, jsval) fmap" where
  "own_props (JObj fs) = fs"
| "own_props (JArr xs) = fmap_of_list (zip (map index_key [0..<length xs]) xs)"
| "own_props (JStr s) =
     fmap_of_list (zip (map index_key [0..<length s]) (map (\<lambda>c. JStr [c]) s))"
| "own_props JUndefined = fmempty"
| "own_props JNull = fmempty"
| "own_props (JBool b) = fmempty"
| "own_props (JNum n) = fmempty"

definition spread :: "jsval \<Rightarrow> jsval \<Rightarrow> jsval" where
  "spread a b = JObj (own_props a ++\<^sub>f own_props b)"

subsection \<open>The \<^verbatim>\<open>Map\<close> of sequences\<close>

text \<open>A JavaScript \<^verbatim>\<open>Map\<close> iterates in insertion order, and \<^verbatim>\<open>values\<close> is what gets
  persisted, so the map is the list of its entries. \<^verbatim>\<open>set\<close> on a key that is there keeps
  the entry's place, on a new key appends. Keys are compared structurally, which is the
  comparison of \<^verbatim>\<open>Map\<close> on the primitives; topics are declared \<^verbatim>\<open>string\<close>.\<close>

type_synonym sequence_map = "(jsval \<times> jsval) list"

definition map_has :: "sequence_map \<Rightarrow> jsval \<Rightarrow> bool" where
  "map_has m k = (map_of m k \<noteq> None)"

definition map_get :: "sequence_map \<Rightarrow> jsval \<Rightarrow> jsval" where
  "map_get m k = (case map_of m k of None \<Rightarrow> JUndefined | Some v \<Rightarrow> v)"

fun map_set :: "sequence_map \<Rightarrow> jsval \<Rightarrow> jsval \<Rightarrow> sequence_map" where
  "map_set [] k v = [(k, v)]"
| "map_set ((k', v') # m) k v =
     (if k' = k then (k, v) # m else (k', v') # map_set m k v)"

definition map_delete :: "sequence_map \<Rightarrow> jsval \<Rightarrow> sequence_map" where
  "map_delete m k = filter (\<lambda>kv. fst kv \<noteq> k) m"

definition map_size :: "sequence_map \<Rightarrow> nat" where
  "map_size m = length m"

definition map_values :: "sequence_map \<Rightarrow> jsval list" where
  "map_values m = map snd m"

subsection \<open>The owning client and the logger\<close>

text \<open>The store reads \<^verbatim>\<open>protocol\<close>, \<^verbatim>\<open>version\<close> and \<^verbatim>\<open>context\<close> of its client, each as the
  template string renders it, and the context of its child logger
  (\<^verbatim>\<open>getLoggerContext(this.logger)\<close>, a string of segments separated by \<^verbatim>\<open>/\<close>). The logger
  package is not part of the sources at hand, so its context is a field of the
  configuration.\<close>

record config =
  client_protocol :: string
  client_version :: string
  client_context :: string
  logger_context :: string

text \<open>\<^verbatim>\<open>s.split("/")\<close>, \<^verbatim>\<open>xs.slice(start, end)\<close> with the relative indices of JavaScript, and
  \<^verbatim>\<open>xs.join(sep)\<close>.\<close>

fun js_split :: "char \<Rightarrow> string \<Rightarrow> string list" where
  "js_split c [] = [[]]"
| "js_split c (x # xs) =
     (if x = c then [] # js_split c xs
      else (case js_split c xs of
              [] \<Rightarrow> [[x]]
            | w # ws \<Rightarrow> (x # w) # ws))"

definition relative_index :: "int \<Rightarrow> int \<Rightarrow> int" where
  "relative_index n i = (if i < 0 then max (n + i) 0 else min i n)"

definition js_slice :: "int \<Rightarrow> int \<Rightarrow> 'a list \<Rightarrow> 'a list" where
  "js_slice start fin xs =
     (let n = int (length xs);
          k = relative_index n start;
          final = relative_index n fin
      in take (nat (final - k)) (drop (nat k) xs))"

fun js_join :: "string \<Rightarrow> string list \<Rightarrow> string" where
  "js_join sep [] = []"
| "js_join sep [x] = x"
| "js_join sep (x # y # ys) = x @ sep @ js_join sep (y # ys)"

definition getNestedContext :: "config \<Rightarrow> nat \<Rightarrow> string list" where
  "getNestedContext cfg len =
     (let nestedContext = js_split CHR ''/'' (logger_context cfg)
      in js_slice (int (length nestedContext) - int len) (int (length nestedContext))
           nestedContext)"

definition getStateContext :: "config \<Rightarrow> string" where
  "getStateContext cfg = js_join '' '' (getNestedContext cfg 2)"

definition getStorageKey :: "config \<Rightarrow> string" where
  "getStorageKey cfg =
     (let storageKeyPrefix = client_protocol cfg @ ''@'' @ client_version cfg @ '':'' @ client_context cfg;
          sequenceContext = js_join '':'' (getNestedContext cfg 2)
      in storageKeyPrefix @ ''//'' @ sequenceContext)"

subsection \<open>Events, storage calls and the state of a store\<close>

text \<open>The five events of \<^verbatim>\<open>STATE_EVENTS\<close> (five different names) with their payloads
  (\<^verbatim>\<open>{topic, sequence}\<close>, \<^verbatim>\<open>{topic, sequence, update}\<close>, \<^verbatim>\<open>{topic, sequence, reason}\<close>).\<close>

datatype state_event =
    Created string jsval
  | Updated string jsval jsval
  | Deleted string jsval jsval
  | Sync
  | Enabled

text \<open>What a store does to the world outside: it emits an event, reads the storage under
  a key, or writes a list of values under a key.\<close>

datatype effect =
    Emit state_event
  | GetItem string
  | SetItem string "jsval list"

text \<open>The fields of the class: \<^verbatim>\<open>sequences\<close> and \<^verbatim>\<open>cached\<close>. \<open>effects\<close> is the log of
  everything emitted and every storage call issued so far, in order; \<open>inflight\<close> holds the
  writes whose promise has not settled yet (\<^verbatim>\<open>persist\<close> is suspended at its \<^verbatim>\<open>await\<close>
  for each of them).\<close>

record state =
  sequences :: sequence_map
  cached :: jsval
  effects :: "effect list"
  inflight :: "(string \<times> jsval list) list"

text \<open>A new store: an empty map, \<^verbatim>\<open>cached = []\<close>.\<close>

definition new_state :: state where
  "new_state = \<lparr>sequences = [], cached = JArr [], effects = [], inflight = []\<rparr>"

text \<open>The getter \<^verbatim>\<open>values\<close>.\<close>

definition values_of :: "state \<Rightarrow> jsval list" where
  "values_of s = map_values (sequences s)"

subsection \<open>Listeners and persistence\<close>

text \<open>\<^verbatim>\<open>persist\<close> up to its \<^verbatim>\<open>await\<close>: the call of \<^verbatim>\<open>storage.setItem\<close> with the storage key
  and the values of that moment. Nobody awaits \<^verbatim>\<open>persist\<close>: the listener returns while the
  write is in flight.\<close>

definition persist :: "config \<Rightarrow> state \<Rightarrow> state" where
  "persist cfg s =
     s\<lparr>effects := effects s @ [SetItem (getStorageKey cfg) (values_of s)],
       inflight := inflight s @ [(getStorageKey cfg, values_of s)]\<rparr>"

text \<open>\<^verbatim>\<open>this.events.emit\<close> with the listeners of \<^verbatim>\<open>registerEventListeners\<close>: one for each of
  \<^verbatim>\<open>created\<close>, \<^verbatim>\<open>updated\<close> and \<^verbatim>\<open>deleted\<close>, each calling \<^verbatim>\<open>persist\<close>. Listeners added from
  outside (\<^verbatim>\<open>on\<close>, \<^verbatim>\<open>once\<close>) are not part of the model. The listeners left by the callers
  that wait at the gate are followed where calls are put in sequence, in \<open>step\<close>.\<close>

fun emit :: "config \<Rightarrow> state_event \<Rightarrow> state \<Rightarrow> state" where
  "emit cfg (Created t sq) s = persist cfg (s\<lparr>effects := effects s @ [Emit (Created t sq)]\<rparr>)"
| "emit cfg (Updated t sq u) s = persist cfg (s\<lparr>effects := effects s @ [Emit (Updated t sq u)]\<rparr>)"
| "emit cfg (Deleted t sq r) s = persist cfg (s\<lparr>effects := effects s @ [Emit (Deleted t sq r)]\<rparr>)"
| "emit cfg Sync s = s\<lparr>effects := effects s @ [Emit Sync]\<rparr>"
| "emit cfg Enabled s = s\<lparr>effects := effects s @ [Emit Enabled]\<rparr>"

text \<open>The rest of \<^verbatim>\<open>persist\<close>, run when the promise of the \<open>i\<close>-th write in flight settles:
  \<^verbatim>\<open>sync\<close> is emitted if the write succeeded; a rejection ends \<^verbatim>\<open>persist\<close> with nobody
  to catch it. Without such a write in flight there is nothing to resume.\<close>

definition persist_resume :: "config \<Rightarrow> nat \<Rightarrow> unit settled \<Rightarrow> state \<Rightarrow> state" where
  "persist_resume cfg i r s =
     (if i < length (inflight s) then
        (case r of
           Resolves u \<Rightarrow>
             emit cfg Sync (s\<lparr>inflight := take i (inflight s) @ drop (Suc i) (inflight s)\<rparr>)
         | Rejects e \<Rightarrow> s\<lparr>inflight := take i (inflight s) @ drop (Suc i) (inflight s)\<rparr>
         | Never_settles \<Rightarrow> s)
      else s)"

subsection \<open>The gate\<close>

text \<open>\<^verbatim>\<open>isEnabled\<close>: \<^verbatim>\<open>if (!this.cached.length) return;\<close>, otherwise a promise that is
  resolved by the next \<^verbatim>\<open>enabled\<close> event. The calls below are followed one at a time, so a
  caller that has to wait for that event is \<open>Suspended\<close>.\<close>

definition isEnabled :: "state \<Rightarrow> unit outcome" where
  "isEnabled s =
     (case js_length (cached s) of
        Inl e \<Rightarrow> Threw e
      | Inr n \<Rightarrow> if \<not> truthy n then Returned () else Suspended)"

text \<open>\<^verbatim>\<open>enable\<close>: clear \<^verbatim>\<open>cached\<close>, emit \<^verbatim>\<open>enabled\<close>.\<close>

definition enable :: "config \<Rightarrow> state \<Rightarrow> state" where
  "enable cfg s = emit cfg Enabled (s\<lparr>cached := JArr []\<rparr>)"

subsection \<open>The operations\<close>

text \<open>Every operation takes the state and returns how the call ended together with the
  state it left. Logging is left out. An operation is followed from its call to its end
  with no other call of the store running in between. The methods \<^verbatim>\<open>get\<close>, \<^verbatim>\<open>set\<close>,
  \<^verbatim>\<open>update\<close> and \<^verbatim>\<open>delete\<close> are \<open>get_sequence\<close>, \<open>set_sequence\<close>, \<open>update_sequence\<close> and
  \<open>delete_sequence\<close>.\<close>

definition getState :: "config \<Rightarrow> string \<Rightarrow> state \<Rightarrow> jsval outcome" where
  "getState cfg topic s =
     (case isEnabled s of
        Threw e \<Rightarrow> Threw e
      | Suspended \<Rightarrow> Suspended
      | Returned u \<Rightarrow>
          (let sequence = map_get (sequences s) (JStr topic)
           in if \<not> truthy sequence
              then Threw (NO_MATCHING_TOPIC (getStateContext cfg) topic)
              else Returned sequence))"

definition get_sequence :: "config \<Rightarrow> string \<Rightarrow> state \<Rightarrow> jsval outcome \<times> state" where
  "get_sequence cfg topic s =
     (case isEnabled s of
        Threw e \<Rightarrow> (Threw e, s)
      | Suspended \<Rightarrow> (Suspended, s)
      | Returned u \<Rightarrow> (getState cfg topic s, s))"

definition update_sequence :: "config \<Rightarrow> string \<Rightarrow> jsval \<Rightarrow> state \<Rightarrow> unit outcome \<times> state" where
  "update_sequence cfg topic upd s =
     (case isEnabled s of
        Threw e \<Rightarrow> (Threw e, s)
      | Suspended \<Rightarrow> (Suspended, s)
      | Returned u \<Rightarrow>
          (case getState cfg topic s of
             Threw e \<Rightarrow> (Threw e, s)
           | Suspended \<Rightarrow> (Suspended, s)
           | Returned old \<Rightarrow>
               (let sequence = spread old upd;
                    s1 = s\<lparr>sequences := map_set (sequences s) (JStr topic) sequence\<rparr>
                in (Returned (), emit cfg (Updated topic sequence upd) s1))))"

text \<open>\<^verbatim>\<open>set\<close>. On a topic that is there it starts \<^verbatim>\<open>this.update(topic, sequence)\<close> without
  awaiting it: \<^verbatim>\<open>set\<close> returns whatever becomes of the update. On a new topic the source
  logs and emits \<^verbatim>\<open>created\<close>; there is no other statement in that branch.\<close>

definition set_sequence :: "config \<Rightarrow> string \<Rightarrow> jsval \<Rightarrow> state \<Rightarrow> unit outcome \<times> state" where
  "set_sequence cfg topic sequence s =
     (case isEnabled s of
        Threw e \<Rightarrow> (Threw e, s)
      | Suspended \<Rightarrow> (Suspended, s)
      | Returned u \<Rightarrow>
          (if map_has (sequences s) (JStr topic)
           then (Returned (), snd (update_sequence cfg topic sequence s))
           else (Returned (), emit cfg (Created topic sequence) s)))"

definition delete_sequence :: "config \<Rightarrow> string \<Rightarrow> jsval \<Rightarrow> state \<Rightarrow> unit outcome \<times> state" where
  "delete_sequence cfg topic reason s =
     (case isEnabled s of
        Threw e \<Rightarrow> (Threw e, s)
      | Suspended \<Rightarrow> (Suspended, s)
      | Returned u \<Rightarrow>
          (if \<not> map_has (sequences s) (JStr topic) then (Returned (), s)
           else
             (case getState cfg topic s of
                Threw e \<Rightarrow> (Threw e, s)
              | Suspended \<Rightarrow> (Suspended, s)
              | Returned sequence \<Rightarrow>
                  (let s1 = s\<lparr>sequences := map_delete (sequences s) (JStr topic)\<rparr>
                   in (Returned (), emit cfg (Deleted topic sequence reason) s1)))))"

subsection \<open>Restore\<close>

text \<open>The callback of \<^verbatim>\<open>this.cached.forEach\<close>, element by element: the entry is stored
  under the element's \<^verbatim>\<open>topic\<close>. An element \<^verbatim>\<open>null\<close> or \<^verbatim>\<open>undefined\<close> throws there, with
  the elements before it already stored.\<close>

fun restore_each :: "jsval list \<Rightarrow> state \<Rightarrow> unit outcome \<times> state" where
  "restore_each [] s = (Returned (), s)"
| "restore_each (sequence # rest) s =
     (case js_topic sequence of
        Inl e \<Rightarrow> (Threw e, s)
      | Inr k \<Rightarrow> restore_each rest (s\<lparr>sequences := map_set (sequences s) k sequence\<rparr>))"

text \<open>\<^verbatim>\<open>forEach\<close> is a method of arrays only; on any other value of this model the call
  throws a \<^verbatim>\<open>TypeError\<close>.\<close>

fun forEach_cached :: "jsval \<Rightarrow> state \<Rightarrow> unit outcome \<times> state" where
  "forEach_cached (JArr xs) s = restore_each xs s"
| "forEach_cached v s = (Threw TypeError, s)"

text \<open>The \<^verbatim>\<open>try\<close> block of \<^verbatim>\<open>restore\<close>, against the behaviour \<open>rd\<close> of the promise of
  \<^verbatim>\<open>storage.getItem\<close>. It returns the state as it is when the block is left.\<close>

definition restore_try :: "config \<Rightarrow> jsval settled \<Rightarrow> state \<Rightarrow> unit outcome \<times> state" where
  "restore_try cfg rd s =
     (let s0 = s\<lparr>effects := effects s @ [GetItem (getStorageKey cfg)]\<rparr>
      in case rd of
           Never_settles \<Rightarrow> (Suspended, s0)
         | Rejects reason \<Rightarrow> (Threw (Rejected reason), s0)
         | Resolves persisted \<Rightarrow>
             if persisted = JUndefined then (Returned (), s0)
             else
               (case js_length persisted of
                  Inl e \<Rightarrow> (Threw e, s0)
                | Inr n \<Rightarrow>
                    if \<not> truthy n then (Returned (), s0)
                    else if map_size (sequences s0) \<noteq> 0
                    then (Threw (RESTORE_WILL_OVERRIDE (getStateContext cfg)), s0)
                    else
                      (let s1 = s0\<lparr>cached := persisted\<rparr>
                       in case forEach_cached (cached s1) s1 of
                            (Returned u, s2) \<Rightarrow> (Returned (), enable cfg s2)
                          | (Threw e, s2) \<Rightarrow> (Threw e, s2)
                          | (Suspended, s2) \<Rightarrow> (Suspended, s2))))"

text \<open>\<^verbatim>\<open>restore\<close>: the \<^verbatim>\<open>catch\<close> clause logs the error and is done.\<close>

definition restore :: "config \<Rightarrow> jsval settled \<Rightarrow> state \<Rightarrow> unit outcome \<times> state" where
  "restore cfg rd s =
     (case restore_try cfg rd s of
        (Threw e, s') \<Rightarrow> (Returned (), s')
      | (Returned u, s') \<Rightarrow> (Returned (), s')
      | (Suspended, s') \<Rightarrow> (Suspended, s'))"

definition init :: "config \<Rightarrow> jsval settled \<Rightarrow> state \<Rightarrow> unit outcome \<times> state" where
  "init cfg rd s = restore cfg rd s"

subsection \<open>Calls in sequence\<close>

text \<open>What can happen to a store, one thing after the other: a call of one of its public
  methods, or the settling of a write in flight, which resumes \<^verbatim>\<open>persist\<close>.\<close>

datatype call =
    Init "jsval settled"
  | Set string jsval
  | Get string
  | Update string jsval
  | Delete string jsval
  | Settle nat "unit settled"

text \<open>One of them on its own: the state it leaves, and whether the caller is left waiting
  at the gate. Only \<^verbatim>\<open>get\<close>, \<^verbatim>\<open>set\<close>, \<^verbatim>\<open>update\<close> and \<^verbatim>\<open>delete\<close> pass the gate; an \<^verbatim>\<open>init\<close>
  whose read never settles waits for the storage, not for the gate.\<close>

fun perform :: "config \<Rightarrow> call \<Rightarrow> state \<Rightarrow> bool \<times> state" where
  "perform cfg (Init rd) s = (False, snd (init cfg rd s))"
| "perform cfg (Set t sq) s =
     (fst (set_sequence cfg t sq s) = Suspended, snd (set_sequence cfg t sq s))"
| "perform cfg (Get t) s =
     (fst (get_sequence cfg t s) = Suspended, snd (get_sequence cfg t s))"
| "perform cfg (Update t u) s =
     (fst (update_sequence cfg t u s) = Suspended, snd (update_sequence cfg t u s))"
| "perform cfg (Delete t r) s =
     (fst (delete_sequence cfg t r s) = Suspended, snd (delete_sequence cfg t r s))"
| "perform cfg (Settle i r) s = (False, persist_resume cfg i r s)"

text \<open>A caller waiting at the gate has left a listener with \<^verbatim>\<open>this.events.once\<close> for the
  next \<^verbatim>\<open>enabled\<close> event (\<^verbatim>\<open>isEnabled\<close>). When \<^verbatim>\<open>enable\<close> emits that event, the listeners
  run in the order they were left, and each waiting call goes on from its \<^verbatim>\<open>await\<close>: with
  \<^verbatim>\<open>cached\<close> just cleared that is the call made again. The calls that wait are kept next to
  the state, in order; they are resumed one after the other, each to its end.\<close>

definition emitted_enabled :: "state \<Rightarrow> state \<Rightarrow> bool" where
  "emitted_enabled s s' = (Emit Enabled \<in> set (drop (length (effects s)) (effects s')))"

fun resume :: "config \<Rightarrow> call list \<Rightarrow> state \<times> call list \<Rightarrow> state \<times> call list" where
  "resume cfg [] sw = sw"
| "resume cfg (c # cs) (s, ws) =
     (case perform cfg c s of
        (waits, s') \<Rightarrow> resume cfg cs (s', if waits then ws @ [c] else ws))"

definition step :: "config \<Rightarrow> state \<times> call list \<Rightarrow> call \<Rightarrow> state \<times> call list" where
  "step cfg sw c =
     (case sw of
        (s, ws) \<Rightarrow>
          (case perform cfg c s of
             (waits, s') \<Rightarrow>
               if waits then (s', ws @ [c])
               else if emitted_enabled s s' then resume cfg ws (s', [])
               else (s', ws)))"

text \<open>A run starts from a new store with nobody waiting.\<close>

definition run_waiting :: "config \<Rightarrow> call list \<Rightarrow> state \<times> call list" where
  "run_waiting cfg calls = foldl (step cfg) (new_state, []) calls"

definition run :: "config \<Rightarrow> call list \<Rightarrow> state" where
  "run cfg calls = fst (run_waiting cfg calls)"

subsection \<open>A client and a sequence to evaluate the store on\<close>

definition example_config :: config where
  "example_config =
     \<lparr>client_protocol = ''wc'', client_version = ''2'', client_context = ''client'',
      logger_context = ''client/session/pending''\<rparr>"

text \<open>The sequence \<^verbatim>\<open>{topic: "t1", v: 1}\<close>.\<close>

definition example_sequence :: jsval where
  "example_sequence = JObj (fmupd ''v'' (JNum 1) (fmupd ''topic'' (JStr ''t1'') fmempty))"

text \<open>A second sequence \<^verbatim>\<open>{topic: "t2", v: 7}\<close>, the patch \<^verbatim>\<open>{v: 2}\<close> and the reason
  \<^verbatim>\<open>{code: 0, message: "done"}\<close>.\<close>

definition other_sequence :: jsval where
  "other_sequence = JObj (fmupd ''v'' (JNum 7) (fmupd ''topic'' (JStr ''t2'') fmempty))"

definition example_patch :: jsval where
  "example_patch = JObj (fmupd ''v'' (JNum 2) fmempty)"

definition example_reason :: jsval where
  "example_reason = JObj (fmupd ''message'' (JStr ''done'') (fmupd ''code'' (JNum 0) fmempty))"

text \<open>A new store after \<^verbatim>\<open>init()\<close> found the two sequences in the storage.\<close>

definition restored_state :: state where
  "restored_state =
     snd (init example_config (Resolves (JArr [example_sequence, other_sequence])) new_state)"

text \<open>A new store after \<^verbatim>\<open>init()\<close> found the snapshot \<^verbatim>\<open>[{topic: "t1", v: 1}, null]\<close>.\<close>

definition stuck_state :: state where
  "stuck_state =
     snd (init example_config (Resolves (JArr [example_sequence, JNull])) new_state)"

text \<open>A run of the example: restore the two sequences, update the first, and let the write
  of that update succeed.\<close>

definition example_calls :: "call list" where
  "example_calls =
     [Init (Resolves (JArr [example_sequence, other_sequence])),
      Update ''t1'' example_patch,
      Settle 0 (Resolves ())]"

text \<open>A new store after \<^verbatim>\<open>init()\<close> found the snapshot \<^verbatim>\<open>[null]\<close>: the map is empty and the
  gate is pending.\<close>

definition pending_state :: state where
  "pending_state = snd (init example_config (Resolves (JArr [JNull])) new_state)"

text \<open>A run with a call that waits: the first restore meets the snapshot \<^verbatim>\<open>[null]\<close> and
  leaves the gate pending, \<^verbatim>\<open>update("t1", {v: 2})\<close> waits, a second restore finds
  \<^verbatim>\<open>[{topic: "t1", v: 1}]\<close> and releases the update, and the write of the update succeeds.\<close>

definition waiting_calls :: "call list" where
  "waiting_calls =
     [Init (Resolves (JArr [JNull])),
      Update ''t1'' example_patch,
      Init (Resolves (JArr [example_sequence])),
      Settle 0 (Resolves ())]"

subsection \<open>Notions used to state the properties\<close>

text \<open>A record is a plain object; its topic is what \<^verbatim>\<open>.topic\<close> reads.\<close>

definition is_record :: "jsval \<Rightarrow> bool" where
  "is_record v = (case v of JObj fs \<Rightarrow> True | _ \<Rightarrow> False)"

definition topic_of :: "jsval \<Rightarrow> jsval" where
  "topic_of v = (case js_topic v of Inl e \<Rightarrow> JUndefined | Inr k \<Rightarrow> k)"

text \<open>The storage key as the specification words it: the protocol, \<^verbatim>\<open>@\<close>, the version,
  \<^verbatim>\<open>:\<close>, the client's context, \<^verbatim>\<open>//\<close>, and the nested context joined by \<^verbatim>\<open>:\<close>. It is
  to be compared with \<open>getStorageKey\<close>.\<close>

fun joined_by :: "string \<Rightarrow> string list \<Rightarrow> string" where
  "joined_by sep [] = []"
| "joined_by sep (x # xs) = x @ concat (map (\<lambda>y. sep @ y) xs)"

definition spec_storage_key :: "string \<Rightarrow> string \<Rightarrow> string \<Rightarrow> string list \<Rightarrow> string" where
  "spec_storage_key proto ver clientContext nestedContext =
     proto @ ''@'' @ ver @ '':'' @ clientContext @ ''//'' @ joined_by '':'' nestedContext"

text \<open>The key of a storage call, and the writes among a list of effects.\<close>

fun storage_key_of :: "effect \<Rightarrow> string option" where
  "storage_key_of (GetItem k) = Some k"
| "storage_key_of (SetItem k vs) = Some k"
| "storage_key_of (Emit ev) = None"

fun writes_of :: "effect list \<Rightarrow> (string \<times> jsval list) list" where
  "writes_of [] = []"
| "writes_of (SetItem k vs # es) = (k, vs) # writes_of es"
| "writes_of (e # es) = writes_of es"

text \<open>Reading a log from its start and pairing every \<^verbatim>\<open>sync\<close> with a write issued before
  it: \<open>unsynced_writes\<close> is the number of writes not paired yet, and \<open>None\<close> as soon as a
  \<^verbatim>\<open>sync\<close> comes with no write left to pair it with.\<close>

fun after_effect :: "nat option \<Rightarrow> effect \<Rightarrow> nat option" where
  "after_effect None e = None"
| "after_effect (Some n) (SetItem k vs) = Some (Suc n)"
| "after_effect (Some n) (Emit Sync) = (if n = 0 then None else Some (n - 1))"
| "after_effect (Some n) e = Some n"

definition unsynced_writes :: "effect list \<Rightarrow> nat option" where
  "unsynced_writes es = foldl after_effect (Some 0) es"

text \<open>\<open>extends cfg s s'\<close>: from \<open>s\<close> to \<open>s'\<close> the log has only grown, by effects other than
  \<^verbatim>\<open>sync\<close> whose storage calls use the storage key, and every write among them is in flight.\<close>

definition extends :: "config \<Rightarrow> state \<Rightarrow> state \<Rightarrow> bool" where
  "extends cfg s s' =
     (\<exists>new. effects s' = effects s @ new
          \<and> Emit Sync \<notin> set new
          \<and> inflight s' = inflight s @ writes_of new
          \<and> (\<forall>e \<in> set new. \<forall>k. storage_key_of e = Some k \<longrightarrow> k = getStorageKey cfg))"

definition log_invariant :: "config \<Rightarrow> state \<Rightarrow> bool" where
  "log_invariant cfg s =
     ((\<forall>e \<in> set (effects s). \<forall>k. storage_key_of e = Some k \<longrightarrow> k = getStorageKey cfg)
      \<and> (\<exists>m. unsynced_writes (effects s) = Some m \<and> length (inflight s) \<le> m))"

section \<open>Properties\<close>

subsection \<open>Evaluation of the example\<close>

lemma example_nested_context: "getNestedContext example_config 2 = [''session'', ''pending'']"
  by (simp add: getNestedContext_def example_config_def js_slice_def relative_index_def)

lemma example_state_context: "getStateContext example_config = ''session pending''"
  by (simp add: getStateContext_def example_nested_context)

lemma example_storage_key: "getStorageKey example_config = ''wc@2:client//session:pending''"
  by (simp add: getStorageKey_def example_nested_context) (simp add: example_config_def)

lemma isEnabled_new_state: "isEnabled new_state = Returned ()"
  by (simp add: isEnabled_def new_state_def)

subsection \<open>The map\<close>

lemma map_of_map_set: "map_of (map_set m k v) k' = (if k' = k then Some v else map_of m k')"
  by (induction m) auto

lemma map_of_map_delete: "map_of (map_delete m k) k' = (if k' = k then None else map_of m k')"
  by (induction m) (auto simp: map_delete_def)

subsection \<open>What emitting changes\<close>

lemma sequences_emit: "sequences (emit cfg ev s) = sequences s"
  by (cases ev) (simp_all add: persist_def)

lemma cached_emit: "cached (emit cfg ev s) = cached s"
  by (cases ev) (simp_all add: persist_def)

subsection \<open>Absent topics\<close>

lemma getState_absent:
  assumes "isEnabled s = Returned ()" and "\<not> map_has (sequences s) (JStr T)"
  shows "getState cfg T s = Threw (NO_MATCHING_TOPIC (getStateContext cfg) T)"
  using assms by (simp add: getState_def map_has_def map_get_def)

text \<open>
  C4. With the gate not pending and the topic \<open>T\<close> not in the map, \<^verbatim>\<open>get(T)\<close> and
  \<^verbatim>\<open>update(T, patch)\<close> throw the no-matching-topic error, and \<^verbatim>\<open>delete(T, reason)\<close>
  returns normally; none of the three changes the store.
\<close>

theorem absent_topic_get_update_throw_delete_returns:
  assumes "isEnabled s = Returned ()" and "\<not> map_has (sequences s) (JStr T)"
  shows "get_sequence cfg T s = (Threw (NO_MATCHING_TOPIC (getStateContext cfg) T), s)
       \<and> update_sequence cfg T patch s = (Threw (NO_MATCHING_TOPIC (getStateContext cfg) T), s)
       \<and> delete_sequence cfg T reason s = (Returned (), s)"
  using assms getState_absent [OF assms, of cfg]
  by (simp add: get_sequence_def update_sequence_def delete_sequence_def)

theorem absent_topic_get_update_throw_delete_returns_witness:
  "isEnabled new_state = Returned ()
   \<and> \<not> map_has (sequences new_state) (JStr ''t1'')
   \<and> get_sequence example_config ''t1'' new_state
       = (Threw (NO_MATCHING_TOPIC ''session pending'' ''t1''), new_state)
   \<and> update_sequence example_config ''t1'' (JObj (fmupd ''v'' (JNum 2) fmempty)) new_state
       = (Threw (NO_MATCHING_TOPIC ''session pending'' ''t1''), new_state)
   \<and> delete_sequence example_config ''t1'' JNull new_state = (Returned (), new_state)"
proof -
  have absent: "\<not> map_has (sequences new_state) (JStr ''t1'')"
    by (simp add: map_has_def new_state_def)
  show ?thesis
    using absent_topic_get_update_throw_delete_returns
            [OF isEnabled_new_state absent, of example_config
               "JObj (fmupd ''v'' (JNum 2) fmempty)" JNull]
          isEnabled_new_state absent
    by (simp add: example_state_context)
qed

subsection \<open>The two restored stores of the example\<close>

lemma init_two_sequences:
  "init example_config (Resolves (JArr [example_sequence, other_sequence])) new_state
   = (Returned (),
      \<lparr>sequences = [(JStr ''t1'', example_sequence), (JStr ''t2'', other_sequence)],
       cached = JArr [],
       effects = [GetItem ''wc@2:client//session:pending'', Emit Enabled],
       inflight = []\<rparr>)"
  by (simp add: init_def restore_def restore_try_def new_state_def map_size_def enable_def
        example_storage_key example_sequence_def other_sequence_def)

lemma restored_state_eq:
  "restored_state =
     \<lparr>sequences = [(JStr ''t1'', example_sequence), (JStr ''t2'', other_sequence)],
      cached = JArr [],
      effects = [GetItem ''wc@2:client//session:pending'', Emit Enabled],
      inflight = []\<rparr>"
  by (simp add: restored_state_def init_two_sequences)

text \<open>With \<^verbatim>\<open>null\<close> as second element the callback of \<^verbatim>\<open>forEach\<close> throws after the first
  element is stored and before \<^verbatim>\<open>enable\<close> is reached: \<^verbatim>\<open>cached\<close> keeps the snapshot.\<close>

lemma init_malformed_snapshot:
  "init example_config (Resolves (JArr [example_sequence, JNull])) new_state
   = (Returned (),
      \<lparr>sequences = [(JStr ''t1'', example_sequence)],
       cached = JArr [example_sequence, JNull],
       effects = [GetItem ''wc@2:client//session:pending''],
       inflight = []\<rparr>)"
  by (simp add: init_def restore_def restore_try_def new_state_def map_size_def enable_def
        example_storage_key example_sequence_def)

lemma stuck_state_eq:
  "stuck_state =
     \<lparr>sequences = [(JStr ''t1'', example_sequence)],
      cached = JArr [example_sequence, JNull],
      effects = [GetItem ''wc@2:client//session:pending''],
      inflight = []\<rparr>"
  by (simp add: stuck_state_def init_malformed_snapshot)

lemma isEnabled_restored_state: "isEnabled restored_state = Returned ()"
  by (simp add: restored_state_eq isEnabled_def)

lemma isEnabled_stuck_state: "isEnabled stuck_state = Suspended"
  by (simp add: stuck_state_eq isEnabled_def)

lemma update_restored_state:
  "update_sequence example_config ''t1'' example_patch restored_state
   = (Returned (),
      \<lparr>sequences =
         [(JStr ''t1'', JObj (fmupd ''v'' (JNum 2) (fmupd ''topic'' (JStr ''t1'') fmempty))),
          (JStr ''t2'', other_sequence)],
       cached = JArr [],
       effects =
         [GetItem ''wc@2:client//session:pending'', Emit Enabled,
          Emit (Updated ''t1''
                  (JObj (fmupd ''v'' (JNum 2) (fmupd ''topic'' (JStr ''t1'') fmempty)))
                  example_patch),
          SetItem ''wc@2:client//session:pending''
            [JObj (fmupd ''v'' (JNum 2) (fmupd ''topic'' (JStr ''t1'') fmempty)),
             other_sequence]],
       inflight =
         [(''wc@2:client//session:pending'',
           [JObj (fmupd ''v'' (JNum 2) (fmupd ''topic'' (JStr ''t1'') fmempty)),
            other_sequence])]\<rparr>)"
  by (simp add: Let_def restored_state_eq update_sequence_def isEnabled_def getState_def
        map_get_def example_sequence_def example_patch_def spread_def persist_def
        values_of_def map_values_def example_storage_key)

lemma delete_restored_state:
  "delete_sequence example_config ''t1'' example_reason restored_state
   = (Returned (),
      \<lparr>sequences = [(JStr ''t2'', other_sequence)],
       cached = JArr [],
       effects =
         [GetItem ''wc@2:client//session:pending'', Emit Enabled,
          Emit (Deleted ''t1'' example_sequence example_reason),
          SetItem ''wc@2:client//session:pending'' [other_sequence]],
       inflight = [(''wc@2:client//session:pending'', [other_sequence])]\<rparr>)"
  by (simp add: Let_def restored_state_eq delete_sequence_def isEnabled_def getState_def
        map_get_def map_has_def map_delete_def example_sequence_def persist_def values_of_def
        map_values_def example_storage_key)

subsection \<open>\<^verbatim>\<open>set\<close> on a new topic\<close>

lemma set_absent_topic:
  assumes "isEnabled s = Returned ()" and "\<not> map_has (sequences s) (JStr T)"
  shows "sequences (snd (set_sequence cfg T S s)) = sequences s
       \<and> fst (get_sequence cfg T (snd (set_sequence cfg T S s)))
           = Threw (NO_MATCHING_TOPIC (getStateContext cfg) T)"
  using assms
  by (simp add: set_sequence_def get_sequence_def getState_def isEnabled_def cached_emit
        sequences_emit map_has_def map_get_def del: emit.simps)

text \<open>
  C1. The claim: with the gate not pending, \<^verbatim>\<open>set(T, S)\<close> on an absent topic inserts \<open>S\<close>
  and publishes \<^verbatim>\<open>created\<close>, so that \<^verbatim>\<open>get(T)\<close> then returns \<open>S\<close>. The code evaluated on a
  new store, \<^verbatim>\<open>set("t1", {topic: "t1", v: 1})\<close> followed by \<^verbatim>\<open>get("t1")\<close>: \<^verbatim>\<open>created\<close> is
  published and the (empty) value list is written, but the map stays empty and the
  \<^verbatim>\<open>get\<close> throws the no-matching-topic error.
\<close>

theorem set_new_topic_then_get_throws:
  "set_sequence example_config ''t1'' example_sequence new_state
     = (Returned (),
        \<lparr>sequences = [], cached = JArr [],
         effects = [Emit (Created ''t1'' example_sequence),
                    SetItem ''wc@2:client//session:pending'' []],
         inflight = [(''wc@2:client//session:pending'', [])]\<rparr>)
   \<and> get_sequence example_config ''t1''
        (snd (set_sequence example_config ''t1'' example_sequence new_state))
     = (Threw (NO_MATCHING_TOPIC ''session pending'' ''t1''),
        snd (set_sequence example_config ''t1'' example_sequence new_state))"
proof -
  have created: "set_sequence example_config ''t1'' example_sequence new_state
     = (Returned (),
        \<lparr>sequences = [], cached = JArr [],
         effects = [Emit (Created ''t1'' example_sequence),
                    SetItem ''wc@2:client//session:pending'' []],
         inflight = [(''wc@2:client//session:pending'', [])]\<rparr>)"
    by (simp add: set_sequence_def isEnabled_def new_state_def map_has_def persist_def
          values_of_def map_values_def example_storage_key)
  show ?thesis
    by (simp add: created get_sequence_def getState_def isEnabled_def map_get_def
          example_state_context)
qed

subsection \<open>\<^verbatim>\<open>update\<close>\<close>

text \<open>
  C5, as amended. With the gate not pending and the topic \<open>T\<close> in the map with a record
  (an object with the properties \<open>fs\<close>), \<^verbatim>\<open>update(T, patch)\<close> returns, stores under \<open>T\<close> the
  object with the properties of the record overwritten by the own properties of the patch
  (a property of the patch wins, every other property of the record is kept), publishes
  \<^verbatim>\<open>updated\<close> with the merged record and the patch as given, and the write that follows
  carries the values of the map after the update.
\<close>

theorem update_present_stores_shallow_merge:
  assumes "isEnabled s = Returned ()"
    and "map_has (sequences s) (JStr T)"
    and "map_get (sequences s) (JStr T) = JObj fs"
  shows "update_sequence cfg T patch s =
           (Returned (),
            s\<lparr>sequences := map_set (sequences s) (JStr T) (JObj (fs ++\<^sub>f own_props patch)),
              effects := effects s @
                [Emit (Updated T (JObj (fs ++\<^sub>f own_props patch)) patch),
                 SetItem (getStorageKey cfg)
                   (map_values
                      (map_set (sequences s) (JStr T) (JObj (fs ++\<^sub>f own_props patch))))],
              inflight := inflight s @
                [(getStorageKey cfg,
                  map_values
                    (map_set (sequences s) (JStr T) (JObj (fs ++\<^sub>f own_props patch))))]\<rparr>)
       \<and> map_get (sequences (snd (update_sequence cfg T patch s))) (JStr T)
           = JObj (fs ++\<^sub>f own_props patch)
       \<and> (\<forall>f. fmlookup (fs ++\<^sub>f own_props patch) f =
                (case fmlookup (own_props patch) f of
                   Some v \<Rightarrow> Some v
                 | None \<Rightarrow> fmlookup fs f))"
proof -
  have old: "getState cfg T s = Returned (JObj fs)"
    using assms by (simp add: getState_def)
  have upd: "update_sequence cfg T patch s =
           (Returned (),
            s\<lparr>sequences := map_set (sequences s) (JStr T) (JObj (fs ++\<^sub>f own_props patch)),
              effects := effects s @
                [Emit (Updated T (JObj (fs ++\<^sub>f own_props patch)) patch),
                 SetItem (getStorageKey cfg)
                   (map_values
                      (map_set (sequences s) (JStr T) (JObj (fs ++\<^sub>f own_props patch))))],
              inflight := inflight s @
                [(getStorageKey cfg,
                  map_values
                    (map_set (sequences s) (JStr T) (JObj (fs ++\<^sub>f own_props patch))))]\<rparr>)"
    using assms(1) old
    by (simp add: update_sequence_def Let_def spread_def persist_def values_of_def)
  have stored: "map_get (sequences (snd (update_sequence cfg T patch s))) (JStr T)
           = JObj (fs ++\<^sub>f own_props patch)"
    by (simp add: upd map_get_def map_of_map_set)
  have fields: "\<forall>f. fmlookup (fs ++\<^sub>f own_props patch) f =
                (case fmlookup (own_props patch) f of
                   Some v \<Rightarrow> Some v
                 | None \<Rightarrow> fmlookup fs f)"
    by (auto split: option.splits)
  from upd stored fields show ?thesis by blast
qed

theorem update_present_stores_shallow_merge_witness:
  "isEnabled restored_state = Returned ()
   \<and> map_has (sequences restored_state) (JStr ''t1'')
   \<and> map_get (sequences restored_state) (JStr ''t1'')
       = JObj (fmupd ''v'' (JNum 1) (fmupd ''topic'' (JStr ''t1'') fmempty))
   \<and> map_get
        (sequences (snd (update_sequence example_config ''t1'' example_patch restored_state)))
        (JStr ''t1'')
       = JObj (fmupd ''v'' (JNum 2) (fmupd ''topic'' (JStr ''t1'') fmempty))"
proof -
  have present: "map_has (sequences restored_state) (JStr ''t1'')"
    by (simp add: restored_state_eq map_has_def)
  have old: "map_get (sequences restored_state) (JStr ''t1'')
       = JObj (fmupd ''v'' (JNum 1) (fmupd ''topic'' (JStr ''t1'') fmempty))"
    by (simp add: restored_state_eq map_get_def example_sequence_def)
  have "map_get
          (sequences (snd (update_sequence example_config ''t1'' example_patch restored_state)))
          (JStr ''t1'')
        = JObj (fmupd ''v'' (JNum 1) (fmupd ''topic'' (JStr ''t1'') fmempty)
                  ++\<^sub>f own_props example_patch)"
    by (rule update_present_stores_shallow_merge
               [OF isEnabled_restored_state present old, of example_config example_patch,
                THEN conjunct2, THEN conjunct1])
  then show ?thesis
    using isEnabled_restored_state present old by (simp add: example_patch_def)
qed

text \<open>The claim C5 as stated, for every store that holds \<open>T\<close>, fails on the store whose
  restore met the malformed snapshot: \<^verbatim>\<open>t1\<close> is there with its record, the gate is pending,
  and \<^verbatim>\<open>update("t1", {v: 2})\<close> is suspended with nothing stored and nothing published.\<close>

theorem update_present_pending_gate_counterexample:
  "map_has (sequences stuck_state) (JStr ''t1'')
   \<and> map_get (sequences stuck_state) (JStr ''t1'') = example_sequence
   \<and> update_sequence example_config ''t1'' example_patch stuck_state = (Suspended, stuck_state)
   \<and> map_get (sequences (snd (update_sequence example_config ''t1'' example_patch stuck_state)))
        (JStr ''t1'') \<noteq> spread example_sequence example_patch
   \<and> effects (snd (update_sequence example_config ''t1'' example_patch stuck_state))
       = effects stuck_state"
proof -
  have ne: "example_sequence \<noteq> spread example_sequence example_patch"
  proof
    assume "example_sequence = spread example_sequence example_patch"
    then have "own_props example_sequence = own_props (spread example_sequence example_patch)"
      by simp
    then have "fmlookup (own_props example_sequence) ''v''
               = fmlookup (own_props (spread example_sequence example_patch)) ''v''"
      by simp
    then show False
      by (simp add: spread_def example_sequence_def example_patch_def)
  qed
  show ?thesis
    using ne
    by (simp add: stuck_state_eq update_sequence_def isEnabled_def map_has_def map_get_def)
qed

text \<open>
  C9, as amended. With the gate not pending and the topic \<open>T\<close> not in the map,
  \<^verbatim>\<open>update(T, patch)\<close> throws the no-matching-topic error and leaves the store as it was:
  the same map, no event emitted, no write issued.
\<close>

theorem update_absent_throws_atomically:
  assumes "isEnabled s = Returned ()" and "\<not> map_has (sequences s) (JStr T)"
  shows "update_sequence cfg T patch s = (Threw (NO_MATCHING_TOPIC (getStateContext cfg) T), s)
       \<and> sequences (snd (update_sequence cfg T patch s)) = sequences s
       \<and> effects (snd (update_sequence cfg T patch s)) = effects s
       \<and> inflight (snd (update_sequence cfg T patch s)) = inflight s"
  using assms(1) getState_absent [OF assms, of cfg]
  by (simp add: update_sequence_def)

theorem update_absent_throws_atomically_witness:
  "isEnabled restored_state = Returned ()
   \<and> \<not> map_has (sequences restored_state) (JStr ''t3'')
   \<and> update_sequence example_config ''t3'' example_patch restored_state
       = (Threw (NO_MATCHING_TOPIC ''session pending'' ''t3''), restored_state)"
proof -
  have absent: "\<not> map_has (sequences restored_state) (JStr ''t3'')"
    by (simp add: restored_state_eq map_has_def)
  show ?thesis
    using update_absent_throws_atomically
            [OF isEnabled_restored_state absent, of example_config example_patch]
          isEnabled_restored_state absent
    by (simp add: example_state_context)
qed

text \<open>The claim C9 as stated, for every store that lacks \<open>T\<close>, fails on the store whose
  restore met the malformed snapshot: \<^verbatim>\<open>t2\<close> is absent, and \<^verbatim>\<open>update("t2", {v: 2})\<close> does
  not throw, it is suspended at the gate.\<close>

theorem update_absent_pending_gate_counterexample:
  "\<not> map_has (sequences stuck_state) (JStr ''t2'')
   \<and> update_sequence example_config ''t2'' example_patch stuck_state = (Suspended, stuck_state)"
  by (simp add: stuck_state_eq update_sequence_def isEnabled_def map_has_def)

subsection \<open>The other topics\<close>

lemma sequences_update:
  "sequences (snd (update_sequence cfg T patch s)) = sequences s
   \<or> (\<exists>v. sequences (snd (update_sequence cfg T patch s)) = map_set (sequences s) (JStr T) v)"
  by (auto simp: update_sequence_def Let_def sequences_emit simp del: emit.simps
        split: outcome.splits)

lemma sequences_delete:
  "sequences (snd (delete_sequence cfg T reason s)) = sequences s
   \<or> sequences (snd (delete_sequence cfg T reason s)) = map_delete (sequences s) (JStr T)"
  by (auto simp: delete_sequence_def Let_def sequences_emit simp del: emit.simps
        split: outcome.splits)

text \<open>
  C10. For a topic \<open>T\<close> in the map and any other topic \<open>T'\<close>, an \<^verbatim>\<open>update(T, patch)\<close> that
  returns and a \<^verbatim>\<open>delete(T, reason)\<close> that returns leave \<open>T'\<close> as it was: in the map or
  not, and with the same sequence.
\<close>

theorem update_delete_leave_other_topics:
  assumes "T' \<noteq> T" and "map_has (sequences s) (JStr T)"
  shows "(fst (update_sequence cfg T patch s) = Returned () \<longrightarrow>
            map_has (sequences (snd (update_sequence cfg T patch s))) (JStr T')
              = map_has (sequences s) (JStr T')
          \<and> map_get (sequences (snd (update_sequence cfg T patch s))) (JStr T')
              = map_get (sequences s) (JStr T'))
       \<and> (fst (delete_sequence cfg T reason s) = Returned () \<longrightarrow>
            map_has (sequences (snd (delete_sequence cfg T reason s))) (JStr T')
              = map_has (sequences s) (JStr T')
          \<and> map_get (sequences (snd (delete_sequence cfg T reason s))) (JStr T')
              = map_get (sequences s) (JStr T'))"
  using assms(1) sequences_update [of cfg T patch s] sequences_delete [of cfg T reason s]
  by (auto simp: map_has_def map_get_def map_of_map_set map_of_map_delete)

theorem update_delete_leave_other_topics_witness:
  "''t2'' \<noteq> ''t1''
   \<and> map_has (sequences restored_state) (JStr ''t1'')
   \<and> fst (update_sequence example_config ''t1'' example_patch restored_state) = Returned ()
   \<and> fst (delete_sequence example_config ''t1'' example_reason restored_state) = Returned ()
   \<and> map_has
        (sequences (snd (update_sequence example_config ''t1'' example_patch restored_state)))
        (JStr ''t2'')
   \<and> map_get
        (sequences (snd (update_sequence example_config ''t1'' example_patch restored_state)))
        (JStr ''t2'') = other_sequence
   \<and> map_has
        (sequences (snd (delete_sequence example_config ''t1'' example_reason restored_state)))
        (JStr ''t2'')
   \<and> map_get
        (sequences (snd (delete_sequence example_config ''t1'' example_reason restored_state)))
        (JStr ''t2'') = other_sequence"
proof -
  have ne: "''t2'' \<noteq> ''t1''"
    by simp
  have present: "map_has (sequences restored_state) (JStr ''t1'')"
    by (simp add: restored_state_eq map_has_def)
  have old: "map_get (sequences restored_state) (JStr ''t2'') = other_sequence"
    "map_has (sequences restored_state) (JStr ''t2'')"
    by (simp_all add: restored_state_eq map_get_def map_has_def)
  show ?thesis
    using update_delete_leave_other_topics
            [OF ne present, of example_config example_patch example_reason] present old
    by (simp add: update_restored_state delete_restored_state)
qed

subsection \<open>Restore\<close>

lemma map_set_new: "k \<notin> fst ` set m \<Longrightarrow> map_set m k v = m @ [(k, v)]"
  by (induction m) auto

lemma js_topic_record: "is_record r \<Longrightarrow> js_topic r = Inr (topic_of r)"
  by (cases r) (simp_all add: is_record_def topic_of_def)

lemma restore_each_distinct:
  assumes "\<forall>r \<in> set recs. is_record r"
    and "distinct (map topic_of recs)"
    and "\<forall>r \<in> set recs. topic_of r \<notin> fst ` set (sequences s)"
  shows "restore_each recs s
         = (Returned (), s\<lparr>sequences := sequences s @ map (\<lambda>r. (topic_of r, r)) recs\<rparr>)"
  using assms
proof (induction recs arbitrary: s)
  case Nil
  then show ?case by simp
next
  case (Cons r recs)
  let ?s1 = "s\<lparr>sequences := map_set (sequences s) (topic_of r) r\<rparr>"
  have new: "map_set (sequences s) (topic_of r) r = sequences s @ [(topic_of r, r)]"
    using Cons.prems(3) by (simp add: map_set_new)
  have "restore_each recs ?s1
        = (Returned (), ?s1\<lparr>sequences := sequences ?s1 @ map (\<lambda>r. (topic_of r, r)) recs\<rparr>)"
  proof (rule Cons.IH)
    show "\<forall>r \<in> set recs. is_record r" using Cons.prems(1) by simp
    show "distinct (map topic_of recs)" using Cons.prems(2) by simp
    show "\<forall>x \<in> set recs. topic_of x \<notin> fst ` set (sequences ?s1)"
    proof
      fix x assume x: "x \<in> set recs"
      have "topic_of x \<noteq> topic_of r"
        using Cons.prems(2) x by (auto simp: image_iff)
      moreover have "topic_of x \<notin> fst ` set (sequences s)"
        using Cons.prems(3) x by simp
      ultimately show "topic_of x \<notin> fst ` set (sequences ?s1)"
        by (simp add: new)
    qed
  qed
  then show ?case
    using Cons.prems(1) by (simp add: js_topic_record new)
qed

text \<open>
  C2, as amended. For a persisted snapshot that is a non-empty array of records with
  pairwise different topics, and an empty map, \<^verbatim>\<open>init()\<close> returns with the map holding
  exactly those records, each under its topic and in the order of the snapshot; the gate is
  cleared, and the log grows by the read of the storage and one \<^verbatim>\<open>enabled\<close> event: no
  \<^verbatim>\<open>created\<close> event and no write.
\<close>

theorem init_restores_distinct_snapshot:
  assumes "recs \<noteq> []"
    and "\<forall>r \<in> set recs. is_record r"
    and "distinct (map topic_of recs)"
    and "sequences s = []"
  shows "init cfg (Resolves (JArr recs)) s
         = (Returned (),
            s\<lparr>sequences := map (\<lambda>r. (topic_of r, r)) recs,
              cached := JArr [],
              effects := effects s @ [GetItem (getStorageKey cfg), Emit Enabled]\<rparr>)
       \<and> map_size (sequences (snd (init cfg (Resolves (JArr recs)) s))) = length recs
       \<and> map_values (sequences (snd (init cfg (Resolves (JArr recs)) s))) = recs
       \<and> (\<forall>r \<in> set recs.
            map_get (sequences (snd (init cfg (Resolves (JArr recs)) s))) (topic_of r) = r)"
proof -
  let ?s1 = "s\<lparr>effects := effects s @ [GetItem (getStorageKey cfg)], cached := JArr recs\<rparr>"
  have each: "restore_each recs ?s1
              = (Returned (), ?s1\<lparr>sequences := sequences ?s1 @ map (\<lambda>r. (topic_of r, r)) recs\<rparr>)"
    by (rule restore_each_distinct) (use assms in simp_all)
  have run: "init cfg (Resolves (JArr recs)) s
         = (Returned (),
            s\<lparr>sequences := map (\<lambda>r. (topic_of r, r)) recs,
              cached := JArr [],
              effects := effects s @ [GetItem (getStorageKey cfg), Emit Enabled]\<rparr>)"
    using assms(1,4) each
    by (simp add: init_def restore_def restore_try_def map_size_def enable_def)
  have look: "\<forall>r \<in> set recs. map_of (map (\<lambda>r. (topic_of r, r)) recs) (topic_of r) = Some r"
    using assms(3)
  proof (induction recs)
    case Nil
    then show ?case by simp
  next
    case (Cons a recs)
    then show ?case by (auto simp: image_iff)
  qed
  show ?thesis
    using look by (simp add: run map_size_def map_values_def map_get_def comp_def)
qed

theorem init_restores_distinct_snapshot_witness:
  "[example_sequence, other_sequence] \<noteq> []
   \<and> is_record example_sequence
   \<and> is_record other_sequence
   \<and> distinct (map topic_of [example_sequence, other_sequence])
   \<and> sequences new_state = []
   \<and> init example_config (Resolves (JArr [example_sequence, other_sequence])) new_state
       = (Returned (),
          \<lparr>sequences = [(JStr ''t1'', example_sequence), (JStr ''t2'', other_sequence)],
           cached = JArr [],
           effects = [GetItem ''wc@2:client//session:pending'', Emit Enabled],
           inflight = []\<rparr>)"
proof -
  have ne: "[example_sequence, other_sequence] \<noteq> []"
    by simp
  have recs: "\<forall>r \<in> set [example_sequence, other_sequence]. is_record r"
    by (simp add: is_record_def example_sequence_def other_sequence_def)
  have topics: "map topic_of [example_sequence, other_sequence]
                = [JStr ''t1'', JStr ''t2'']"
    by (simp add: topic_of_def example_sequence_def other_sequence_def)
  have dist: "distinct (map topic_of [example_sequence, other_sequence])"
    unfolding topics by simp
  have empty: "sequences new_state = []"
    by (simp add: new_state_def)
  have "init example_config (Resolves (JArr [example_sequence, other_sequence])) new_state
       = (Returned (),
          new_state\<lparr>sequences := map (\<lambda>r. (topic_of r, r)) [example_sequence, other_sequence],
            cached := JArr [],
            effects := effects new_state @ [GetItem (getStorageKey example_config), Emit Enabled]\<rparr>)"
    by (rule init_restores_distinct_snapshot
               [OF ne recs dist empty, of example_config, THEN conjunct1])
  then show ?thesis
    using ne recs dist empty topics by (simp add: new_state_def example_storage_key)
qed

text \<open>The claim C2 as stated, for every snapshot of \<open>N\<close> records, fails in two ways. On the
  empty snapshot \<^verbatim>\<open>init()\<close> returns after the read, and no \<^verbatim>\<open>enabled\<close> event is emitted.
  On the snapshot \<^verbatim>\<open>[{topic: "t1", v: 1}, {topic: "t1", v: 2}]\<close> of two records the map
  ends with one entry.\<close>

theorem init_empty_or_duplicate_snapshot_counterexample:
  "effects (snd (init example_config (Resolves (JArr [])) new_state))
     = [GetItem ''wc@2:client//session:pending'']
   \<and> map_size (sequences (snd (init example_config
         (Resolves (JArr [example_sequence,
                          JObj (fmupd ''v'' (JNum 2) (fmupd ''topic'' (JStr ''t1'') fmempty))]))
         new_state))) = 1"
  by (simp add: init_def restore_def restore_try_def new_state_def map_size_def enable_def
        example_storage_key example_sequence_def)

text \<open>
  C3. For a persisted snapshot that is a non-empty array and a map that already holds a
  record, the \<^verbatim>\<open>try\<close> block of \<^verbatim>\<open>restore\<close> throws the restore-will-override error right
  after the read; \<^verbatim>\<open>init()\<close> returns with the map and \<^verbatim>\<open>cached\<close> as they were (so the gate
  is as it was) and with nothing in the log but the read: no \<^verbatim>\<open>enabled\<close> event.
\<close>

theorem init_conflict_leaves_store:
  assumes "xs \<noteq> []" and "1 \<le> map_size (sequences s)"
  shows "restore_try cfg (Resolves (JArr xs)) s
         = (Threw (RESTORE_WILL_OVERRIDE (getStateContext cfg)),
            s\<lparr>effects := effects s @ [GetItem (getStorageKey cfg)]\<rparr>)
       \<and> init cfg (Resolves (JArr xs)) s
         = (Returned (), s\<lparr>effects := effects s @ [GetItem (getStorageKey cfg)]\<rparr>)
       \<and> sequences (snd (init cfg (Resolves (JArr xs)) s)) = sequences s
       \<and> cached (snd (init cfg (Resolves (JArr xs)) s)) = cached s
       \<and> isEnabled (snd (init cfg (Resolves (JArr xs)) s)) = isEnabled s"
  using assms
  by (simp add: init_def restore_def restore_try_def isEnabled_def)

theorem init_conflict_leaves_store_witness:
  "[example_sequence] \<noteq> [] \<and> 1 \<le> map_size (sequences restored_state)
   \<and> init example_config (Resolves (JArr [example_sequence])) restored_state
       = (Returned (),
          \<lparr>sequences = [(JStr ''t1'', example_sequence), (JStr ''t2'', other_sequence)],
           cached = JArr [],
           effects = [GetItem ''wc@2:client//session:pending'', Emit Enabled,
                      GetItem ''wc@2:client//session:pending''],
           inflight = []\<rparr>)"
proof -
  have ne: "[example_sequence] \<noteq> []"
    by simp
  have full: "1 \<le> map_size (sequences restored_state)"
    by (simp add: restored_state_eq map_size_def)
  have "init example_config (Resolves (JArr [example_sequence])) restored_state
        = (Returned (),
           restored_state\<lparr>effects := effects restored_state @ [GetItem (getStorageKey example_config)]\<rparr>)"
    by (rule init_conflict_leaves_store
               [OF ne full, of example_config, THEN conjunct2, THEN conjunct1])
  then show ?thesis
    using ne full by (simp add: restored_state_eq example_storage_key)
qed

lemma restore_try_malformed_snapshot:
  "restore_try example_config (Resolves (JArr [example_sequence, JNull])) new_state
   = (Threw TypeError, stuck_state)"
  by (simp add: stuck_state_eq restore_try_def new_state_def map_size_def
        example_storage_key example_sequence_def)

text \<open>
  C7. Whatever the promise of \<^verbatim>\<open>storage.getItem\<close> does, \<^verbatim>\<open>init()\<close> does not throw: when
  the \<^verbatim>\<open>try\<close> block of \<^verbatim>\<open>restore\<close> throws, \<^verbatim>\<open>init()\<close> returns normally with the store
  exactly as it was at the throw. In particular a rejected read leaves the map and the gate
  as they were.
\<close>

theorem init_never_throws:
  "(\<forall>e. fst (init cfg rd s) \<noteq> Threw e)
   \<and> (\<forall>e s'. restore_try cfg rd s = (Threw e, s') \<longrightarrow> init cfg rd s = (Returned (), s'))
   \<and> (\<forall>reason. init cfg (Rejects reason) s
         = (Returned (), s\<lparr>effects := effects s @ [GetItem (getStorageKey cfg)]\<rparr>))"
proof -
  have a: "\<forall>e. fst (init cfg rd s) \<noteq> Threw e"
    by (simp add: init_def restore_def split: prod.splits outcome.splits)
  have b: "\<forall>e s'. restore_try cfg rd s = (Threw e, s') \<longrightarrow> init cfg rd s = (Returned (), s')"
    by (simp add: init_def restore_def)
  have c: "\<forall>reason. init cfg (Rejects reason) s
         = (Returned (), s\<lparr>effects := effects s @ [GetItem (getStorageKey cfg)]\<rparr>)"
    by (simp add: init_def restore_def restore_try_def)
  from a b c show ?thesis by blast
qed

theorem init_never_throws_witness:
  "restore_try example_config (Resolves (JArr [example_sequence, JNull])) new_state
     = (Threw TypeError, stuck_state)
   \<and> init example_config (Resolves (JArr [example_sequence, JNull])) new_state
     = (Returned (), stuck_state)
   \<and> sequences stuck_state = [(JStr ''t1'', example_sequence)]"
  using init_never_throws
          [of example_config "Resolves (JArr [example_sequence, JNull])" new_state]
    restore_try_malformed_snapshot
  by (simp add: stuck_state_eq)

subsection \<open>The storage key\<close>

lemma js_join_joined_by: "js_join sep xs = joined_by sep xs"
  by (induction sep xs rule: js_join.induct) simp_all

lemma js_slice_last_two:
  "js_slice (int (length xs) - 2) (int (length xs)) xs = drop (length xs - 2) xs"
proof -
  have n: "nat (int (length xs) - 2) = length xs - 2"
    by arith
  show ?thesis
    by (auto simp: js_slice_def relative_index_def Let_def n)
qed

lemma getNestedContext_last_two:
  "getNestedContext cfg 2 =
     drop (length (js_split CHR ''/'' (logger_context cfg)) - 2)
       (js_split CHR ''/'' (logger_context cfg))"
  using js_slice_last_two [of "js_split CHR ''/'' (logger_context cfg)"]
  by (simp add: getNestedContext_def Let_def)

lemma getStorageKey_spec:
  "getStorageKey cfg =
     spec_storage_key (client_protocol cfg) (client_version cfg) (client_context cfg)
       (getNestedContext cfg 2)"
  by (simp add: getStorageKey_def spec_storage_key_def js_join_joined_by)

subsection \<open>The log of a run\<close>

lemma extends_refl: "extends cfg s s"
  by (simp add: extends_def)

lemma extends_emit:
  assumes "ev \<noteq> Sync" and "effects s' = effects s" and "inflight s' = inflight s"
  shows "extends cfg s (emit cfg ev s')"
proof (cases ev)
  case (Created t sq)
  then show ?thesis using assms(2,3)
    by (simp add: extends_def persist_def)
next
  case (Updated t sq u)
  then show ?thesis using assms(2,3)
    by (simp add: extends_def persist_def)
next
  case (Deleted t sq r)
  then show ?thesis using assms(2,3)
    by (simp add: extends_def persist_def)
next
  case Sync
  then show ?thesis using assms(1) by simp
next
  case Enabled
  then show ?thesis using assms(2,3)
    by (simp add: extends_def)
qed

lemma extends_update: "extends cfg s (snd (update_sequence cfg T patch s))"
  by (auto simp: update_sequence_def Let_def extends_refl extends_emit simp del: emit.simps
        split: outcome.splits)

lemma extends_delete: "extends cfg s (snd (delete_sequence cfg T reason s))"
  by (auto simp: delete_sequence_def Let_def extends_refl extends_emit simp del: emit.simps
        split: outcome.splits)

lemma extends_set: "extends cfg s (snd (set_sequence cfg T S s))"
  by (auto simp: set_sequence_def extends_refl extends_emit extends_update simp del: emit.simps
        split: outcome.splits)

lemma extends_get: "extends cfg s (snd (get_sequence cfg T s))"
  by (auto simp: get_sequence_def extends_refl split: outcome.splits)

lemma restore_each_effects:
  "effects (snd (restore_each xs s)) = effects s \<and> inflight (snd (restore_each xs s)) = inflight s"
  by (induction xs arbitrary: s) (auto split: sum.splits)

lemma forEach_cached_effects:
  "effects (snd (forEach_cached v s)) = effects s
   \<and> inflight (snd (forEach_cached v s)) = inflight s"
  by (cases v) (simp_all add: restore_each_effects)


lemma extends_init: "extends cfg s (snd (init cfg rd s))"
proof -
  let ?s0 = "s\<lparr>effects := effects s @ [GetItem (getStorageKey cfg)]\<rparr>"
  have base: "extends cfg s ?s0"
    by (simp add: extends_def)
  have enabled: "extends cfg s (enable cfg s2)"
    if "effects s2 = effects ?s0" and "inflight s2 = inflight ?s0" for s2
    using that by (simp add: extends_def enable_def)
  have thrown: "extends cfg s s2"
    if "effects s2 = effects ?s0" and "inflight s2 = inflight ?s0" for s2
    using that by (simp add: extends_def)
  show ?thesis
  proof (cases rd)
    case (Resolves persisted)
    let ?s1 = "?s0\<lparr>cached := persisted\<rparr>"
    have each: "effects (snd (forEach_cached persisted ?s1)) = effects ?s0"
      "inflight (snd (forEach_cached persisted ?s1)) = inflight ?s0"
      by (simp_all add: forEach_cached_effects)
    show ?thesis
      using Resolves base enabled [OF each] thrown [OF each]
      by (auto simp: init_def restore_def restore_try_def Let_def
            split: sum.splits prod.splits outcome.splits)
  next
    case (Rejects reason)
    then show ?thesis using base by (simp add: init_def restore_def restore_try_def)
  next
    case Never_settles
    then show ?thesis using base by (simp add: init_def restore_def restore_try_def)
  qed
qed

lemma extends_perform:
  assumes "\<forall>i r. c \<noteq> Settle i r"
  shows "extends cfg s (snd (perform cfg c s))"
  using assms
  by (cases c) (simp_all add: extends_init extends_set extends_get extends_update extends_delete)

lemma writes_of_append: "writes_of (a @ b) = writes_of a @ writes_of b"
  by (induction a rule: writes_of.induct) simp_all

lemma extends_trans:
  assumes "extends cfg a b" and "extends cfg b c"
  shows "extends cfg a c"
proof -
  from assms(1) obtain new1 where new1:
    "effects b = effects a @ new1" "Emit Sync \<notin> set new1"
    "inflight b = inflight a @ writes_of new1"
    "\<forall>e \<in> set new1. \<forall>k. storage_key_of e = Some k \<longrightarrow> k = getStorageKey cfg"
    unfolding extends_def by blast
  from assms(2) obtain new2 where new2:
    "effects c = effects b @ new2" "Emit Sync \<notin> set new2"
    "inflight c = inflight b @ writes_of new2"
    "\<forall>e \<in> set new2. \<forall>k. storage_key_of e = Some k \<longrightarrow> k = getStorageKey cfg"
    unfolding extends_def by blast
  have "effects c = effects a @ (new1 @ new2)"
    using new1(1) new2(1) by simp
  moreover have "Emit Sync \<notin> set (new1 @ new2)"
    using new1(2) new2(2) by simp
  moreover have "inflight c = inflight a @ writes_of (new1 @ new2)"
    using new1(3) new2(3) by (simp add: writes_of_append)
  moreover have "\<forall>e \<in> set (new1 @ new2).
                   \<forall>k. storage_key_of e = Some k \<longrightarrow> k = getStorageKey cfg"
    using new1(4) new2(4) by auto
  ultimately show ?thesis
    unfolding extends_def by blast
qed

lemma extends_resume:
  assumes "\<forall>w \<in> set cs. \<forall>i r. w \<noteq> Settle i r"
  shows "extends cfg (fst sw) (fst (resume cfg cs sw))"
  using assms
proof (induction cs arbitrary: sw)
  case Nil
  then show ?case by (simp add: extends_refl)
next
  case (Cons c cs)
  obtain s ws where sw: "sw = (s, ws)"
    by (cases sw)
  obtain waits s' where performed: "perform cfg c s = (waits, s')"
    by (cases "perform cfg c s")
  have first: "extends cfg s s'"
    using extends_perform [of c cfg s] Cons.prems performed by simp
  have rest: "extends cfg s' (fst (resume cfg cs (s', if waits then ws @ [c] else ws)))"
    using Cons.IH [of "(s', if waits then ws @ [c] else ws)"] Cons.prems by simp
  show ?case
    using extends_trans [OF first rest] by (simp add: sw performed)
qed

lemma extends_step:
  assumes "\<forall>i r. c \<noteq> Settle i r" and "\<forall>w \<in> set ws. \<forall>i r. w \<noteq> Settle i r"
  shows "extends cfg s (fst (step cfg (s, ws) c))"
proof -
  obtain waits s' where performed: "perform cfg c s = (waits, s')"
    by (cases "perform cfg c s")
  have first: "extends cfg s s'"
    using extends_perform [OF assms(1), of cfg s] performed by simp
  have rest: "extends cfg s' (fst (resume cfg ws (s', [])))"
    using extends_resume [OF assms(2), of cfg "(s', [])"] by simp
  show ?thesis
    using first extends_trans [OF first rest] by (simp add: step_def performed)
qed

lemma foldl_after_effect_no_sync:
  "Emit Sync \<notin> set new \<Longrightarrow>
   foldl after_effect (Some m) new = Some (m + length (writes_of new))"
proof (induction new arbitrary: m)
  case Nil
  then show ?case by simp
next
  case (Cons e new)
  show ?case
  proof (cases e)
    case (Emit ev)
    then show ?thesis using Cons by (cases ev) simp_all
  next
    case (GetItem k)
    then show ?thesis using Cons by simp
  next
    case (SetItem k vs)
    then show ?thesis using Cons by simp
  qed
qed

lemma log_invariant_extends:
  assumes "log_invariant cfg s" and "extends cfg s s'"
  shows "log_invariant cfg s'"
proof -
  from assms(2) obtain new where new:
    "effects s' = effects s @ new" "Emit Sync \<notin> set new"
    "inflight s' = inflight s @ writes_of new"
    "\<forall>e \<in> set new. \<forall>k. storage_key_of e = Some k \<longrightarrow> k = getStorageKey cfg"
    unfolding extends_def by blast
  from assms(1) obtain m where m:
    "unsynced_writes (effects s) = Some m" "length (inflight s) \<le> m"
    unfolding log_invariant_def by blast
  have keys: "\<forall>e \<in> set (effects s'). \<forall>k. storage_key_of e = Some k \<longrightarrow> k = getStorageKey cfg"
    using assms(1) new(1,4) unfolding log_invariant_def by auto
  have "unsynced_writes (effects s') = Some (m + length (writes_of new))"
    using m(1) new(1,2) by (simp add: unsynced_writes_def foldl_after_effect_no_sync)
  moreover have "length (inflight s') \<le> m + length (writes_of new)"
    using m(2) new(3) by simp
  ultimately show ?thesis
    using keys unfolding log_invariant_def by blast
qed

lemma log_invariant_persist_resume:
  assumes "log_invariant cfg s"
  shows "log_invariant cfg (persist_resume cfg i r s)"
proof -
  from assms obtain m where m:
    "unsynced_writes (effects s) = Some m" "length (inflight s) \<le> m"
    unfolding log_invariant_def by blast
  have keys: "\<forall>e \<in> set (effects s). \<forall>k. storage_key_of e = Some k \<longrightarrow> k = getStorageKey cfg"
    using assms unfolding log_invariant_def by blast
  show ?thesis
  proof (cases "i < length (inflight s)")
    case False
    then show ?thesis using assms by (simp add: persist_resume_def)
  next
    case True
    then have pos: "0 < m" using m(2) by simp
    show ?thesis
    proof (cases r)
      case (Resolves u)
      have "unsynced_writes (effects s @ [Emit Sync]) = Some (m - 1)"
        using m(1) pos by (simp add: unsynced_writes_def)
      moreover have "length (take i (inflight s) @ drop (Suc i) (inflight s)) \<le> m - 1"
        using True m(2) by simp
      ultimately show ?thesis
        using True Resolves keys by (simp add: persist_resume_def log_invariant_def)
    next
      case (Rejects e)
      have "length (take i (inflight s) @ drop (Suc i) (inflight s)) \<le> m"
        using True m(2) by simp
      then show ?thesis
        using True Rejects keys m(1) by (simp add: persist_resume_def log_invariant_def)
    next
      case Never_settles
      then show ?thesis using assms by (simp add: persist_resume_def)
    qed
  qed
qed

lemma log_invariant_perform:
  assumes "log_invariant cfg s"
  shows "log_invariant cfg (snd (perform cfg c s))"
proof (cases "\<exists>i r. c = Settle i r")
  case True
  then show ?thesis using assms by (auto simp: log_invariant_persist_resume)
next
  case False
  then show ?thesis
    using log_invariant_extends [OF assms extends_perform [of c cfg s]] by simp
qed

lemma log_invariant_resume:
  assumes "log_invariant cfg (fst sw)"
  shows "log_invariant cfg (fst (resume cfg cs sw))"
  using assms
proof (induction cs arbitrary: sw)
  case Nil
  then show ?case by simp
next
  case (Cons c cs)
  obtain s ws where sw: "sw = (s, ws)"
    by (cases sw)
  obtain waits s' where performed: "perform cfg c s = (waits, s')"
    by (cases "perform cfg c s")
  have "log_invariant cfg s'"
    using log_invariant_perform [of cfg s c] Cons.prems performed by (simp add: sw)
  then have "log_invariant cfg (fst (resume cfg cs (s', if waits then ws @ [c] else ws)))"
    using Cons.IH [of "(s', if waits then ws @ [c] else ws)"] by simp
  then show ?case
    by (simp add: sw performed)
qed

lemma log_invariant_step:
  assumes "log_invariant cfg (fst sw)"
  shows "log_invariant cfg (fst (step cfg sw c))"
proof -
  obtain s ws where sw: "sw = (s, ws)"
    by (cases sw)
  obtain waits s' where performed: "perform cfg c s = (waits, s')"
    by (cases "perform cfg c s")
  have first: "log_invariant cfg s'"
    using log_invariant_perform [of cfg s c] assms performed by (simp add: sw)
  have rest: "log_invariant cfg (fst (resume cfg ws (s', [])))"
    using log_invariant_resume [of cfg "(s', [])" ws] first by simp
  show ?thesis
    using first rest by (simp add: step_def sw performed)
qed

lemma log_invariant_run: "log_invariant cfg (run cfg calls)"
proof (induction calls rule: rev_induct)
  case Nil
  show ?case
    by (simp add: run_def run_waiting_def new_state_def log_invariant_def unsynced_writes_def)
next
  case (snoc c calls)
  then show ?case
    using log_invariant_step [of cfg "run_waiting cfg calls" c]
    by (simp add: run_def run_waiting_def)
qed

text \<open>Right after \<^verbatim>\<open>enable\<close> the gate is open, and no call of \<^verbatim>\<open>get\<close>, \<^verbatim>\<open>set\<close>, \<^verbatim>\<open>update\<close> or
  \<^verbatim>\<open>delete\<close> closes it: a released call does not wait again.\<close>

lemma isEnabled_enable: "isEnabled (enable cfg s) = Returned ()"
  by (simp add: enable_def isEnabled_def)

lemma perform_open_gate:
  assumes "isEnabled s = Returned ()" and "\<forall>rd. c \<noteq> Init rd"
  shows "\<not> fst (perform cfg c s) \<and> isEnabled (snd (perform cfg c s)) = Returned ()"
proof (cases c)
  case (Init rd)
  then show ?thesis using assms(2) by simp
next
  case (Set t sq)
  then show ?thesis
    using assms(1)
    by (auto simp: set_sequence_def update_sequence_def getState_def isEnabled_def Let_def
          cached_emit simp del: emit.simps split: sum.splits if_splits)
next
  case (Get t)
  then show ?thesis
    using assms(1) by (simp add: get_sequence_def getState_def Let_def)
next
  case (Update t u)
  then show ?thesis
    using assms(1)
    by (auto simp: update_sequence_def getState_def isEnabled_def Let_def cached_emit
          simp del: emit.simps split: sum.splits if_splits)
next
  case (Delete t r)
  then show ?thesis
    using assms(1)
    by (auto simp: delete_sequence_def getState_def isEnabled_def Let_def cached_emit
          simp del: emit.simps split: sum.splits if_splits)
next
  case (Settle i r)
  then show ?thesis
    using assms(1)
    by (cases r) (simp_all add: persist_resume_def isEnabled_def)
qed

lemma example_run:
  "run example_config example_calls =
     \<lparr>sequences =
        [(JStr ''t1'', JObj (fmupd ''v'' (JNum 2) (fmupd ''topic'' (JStr ''t1'') fmempty))),
         (JStr ''t2'', other_sequence)],
      cached = JArr [],
      effects =
        [GetItem ''wc@2:client//session:pending'', Emit Enabled,
         Emit (Updated ''t1''
                 (JObj (fmupd ''v'' (JNum 2) (fmupd ''topic'' (JStr ''t1'') fmempty)))
                 example_patch),
         SetItem ''wc@2:client//session:pending''
           [JObj (fmupd ''v'' (JNum 2) (fmupd ''topic'' (JStr ''t1'') fmempty)),
            other_sequence],
         Emit Sync],
      inflight = []\<rparr>"
  by (simp add: run_def run_waiting_def example_calls_def step_def emitted_enabled_def
        init_def restore_def restore_try_def new_state_def map_size_def enable_def
        update_sequence_def isEnabled_def getState_def map_get_def spread_def persist_def
        persist_resume_def values_of_def map_values_def Let_def
        example_storage_key example_sequence_def other_sequence_def example_patch_def)

lemma pending_state_eq:
  "pending_state =
     \<lparr>sequences = [], cached = JArr [JNull],
      effects = [GetItem ''wc@2:client//session:pending''],
      inflight = []\<rparr>"
  by (simp add: pending_state_def init_def restore_def restore_try_def new_state_def
        map_size_def example_storage_key)

text \<open>\<^verbatim>\<open>update("t1", {v: 2})\<close> waits at the pending gate; the next \<^verbatim>\<open>init()\<close> restores
  \<^verbatim>\<open>t1\<close>, emits \<^verbatim>\<open>enabled\<close>, and the update goes on: it merges, publishes and writes.\<close>

lemma update_waits_at_pending_gate:
  "step example_config (pending_state, []) (Update ''t1'' example_patch)
   = (pending_state, [Update ''t1'' example_patch])"
  by (simp add: step_def pending_state_eq update_sequence_def isEnabled_def)

lemma init_releases_waiting_update:
  "step example_config (pending_state, [Update ''t1'' example_patch])
     (Init (Resolves (JArr [example_sequence])))
   = (\<lparr>sequences =
         [(JStr ''t1'', JObj (fmupd ''v'' (JNum 2) (fmupd ''topic'' (JStr ''t1'') fmempty)))],
       cached = JArr [],
       effects =
         [GetItem ''wc@2:client//session:pending'',
          GetItem ''wc@2:client//session:pending'', Emit Enabled,
          Emit (Updated ''t1''
                  (JObj (fmupd ''v'' (JNum 2) (fmupd ''topic'' (JStr ''t1'') fmempty)))
                  (JObj (fmupd ''v'' (JNum 2) fmempty))),
          SetItem ''wc@2:client//session:pending''
            [JObj (fmupd ''v'' (JNum 2) (fmupd ''topic'' (JStr ''t1'') fmempty))]],
       inflight =
         [(''wc@2:client//session:pending'',
           [JObj (fmupd ''v'' (JNum 2) (fmupd ''topic'' (JStr ''t1'') fmempty))])]\<rparr>,
      [])"
  by (simp add: step_def pending_state_eq emitted_enabled_def
        init_def restore_def restore_try_def map_size_def enable_def
        update_sequence_def isEnabled_def getState_def map_get_def spread_def persist_def
        values_of_def map_values_def Let_def
        example_storage_key example_sequence_def example_patch_def)

lemma waiting_run:
  "run example_config waiting_calls =
     \<lparr>sequences =
        [(JStr ''t1'', JObj (fmupd ''v'' (JNum 2) (fmupd ''topic'' (JStr ''t1'') fmempty)))],
      cached = JArr [],
      effects =
        [GetItem ''wc@2:client//session:pending'',
         GetItem ''wc@2:client//session:pending'', Emit Enabled,
         Emit (Updated ''t1''
                 (JObj (fmupd ''v'' (JNum 2) (fmupd ''topic'' (JStr ''t1'') fmempty)))
                 (JObj (fmupd ''v'' (JNum 2) fmempty))),
         SetItem ''wc@2:client//session:pending''
           [JObj (fmupd ''v'' (JNum 2) (fmupd ''topic'' (JStr ''t1'') fmempty))],
         Emit Sync],
      inflight = []\<rparr>"
  by (simp add: run_def run_waiting_def waiting_calls_def step_def emitted_enabled_def
        init_def restore_def restore_try_def new_state_def map_size_def enable_def
        update_sequence_def isEnabled_def getState_def map_get_def spread_def persist_def
        persist_resume_def values_of_def map_values_def Let_def
        example_storage_key example_sequence_def example_patch_def)

text \<open>
  C8. The storage key is the string the specification gives, built from the client's
  protocol, version and context and from the nested context, which is the last two segments
  of the logger's context; and after any sequence of calls on a store, every read and every
  write of the storage in its log was made under that one key.
\<close>

theorem storage_key_format_and_single_slot:
  "getStorageKey cfg =
     spec_storage_key (client_protocol cfg) (client_version cfg) (client_context cfg)
       (getNestedContext cfg 2)
   \<and> getNestedContext cfg 2 =
       drop (length (js_split CHR ''/'' (logger_context cfg)) - 2)
         (js_split CHR ''/'' (logger_context cfg))
   \<and> (\<forall>e \<in> set (effects (run cfg calls)).
         \<forall>k. storage_key_of e = Some k \<longrightarrow> k = getStorageKey cfg)"
  using getStorageKey_spec [of cfg] getNestedContext_last_two [of cfg]
    log_invariant_run [of cfg calls]
  unfolding log_invariant_def by blast

theorem storage_key_format_and_single_slot_witness:
  "getStorageKey example_config = ''wc@2:client//session:pending''
   \<and> spec_storage_key ''wc'' ''2'' ''client'' [''session'', ''pending'']
       = ''wc@2:client//session:pending''
   \<and> GetItem ''wc@2:client//session:pending'' \<in> set (effects (run example_config example_calls))
   \<and> storage_key_of (GetItem ''wc@2:client//session:pending'')
       = Some (getStorageKey example_config)"
proof -
  have mem: "GetItem ''wc@2:client//session:pending''
             \<in> set (effects (run example_config example_calls))"
    by (simp add: example_run)
  have "\<forall>k. storage_key_of (GetItem ''wc@2:client//session:pending'') = Some k
          \<longrightarrow> k = getStorageKey example_config"
    using storage_key_format_and_single_slot
            [of example_config example_calls] mem by blast
  then show ?thesis
    using mem by (simp add: example_storage_key spec_storage_key_def)
qed

subsection \<open>Publishing and persisting\<close>

text \<open>
  C6. Emitting \<^verbatim>\<open>created\<close>, \<^verbatim>\<open>updated\<close> or \<^verbatim>\<open>deleted\<close> adds to the log the event and exactly
  one write, under the storage key and carrying the values of all entries of the map at
  that moment, in the map's order, and puts that write in flight. \<^verbatim>\<open>sync\<close> is emitted when
  a write in flight settles with success and by nothing else: a call of a method, with the
  waiting calls it releases, emits none, and in the log of any run every \<^verbatim>\<open>sync\<close> has a
  write of its own before it.
\<close>

theorem publish_issues_one_write_then_sync:
  "(ev \<noteq> Sync \<and> ev \<noteq> Enabled \<longrightarrow>
      emit cfg ev s =
        s\<lparr>effects := effects s @
             [Emit ev, SetItem (getStorageKey cfg) (map snd (sequences s))],
          inflight := inflight s @ [(getStorageKey cfg, map snd (sequences s))]\<rparr>)
   \<and> effects (persist_resume cfg i r s) =
       effects s @ (if i < length (inflight s) \<and> r = Resolves () then [Emit Sync] else [])
   \<and> ((\<forall>j q. c \<noteq> Settle j q) \<and> (\<forall>w \<in> set ws. \<forall>j q. w \<noteq> Settle j q) \<longrightarrow>
        (\<exists>new. effects (fst (step cfg (s, ws) c)) = effects s @ new \<and> Emit Sync \<notin> set new))
   \<and> (\<exists>m. unsynced_writes (effects (run cfg calls)) = Some m
          \<and> length (inflight (run cfg calls)) \<le> m)"
proof -
  have publish: "ev \<noteq> Sync \<and> ev \<noteq> Enabled \<longrightarrow>
      emit cfg ev s =
        s\<lparr>effects := effects s @
             [Emit ev, SetItem (getStorageKey cfg) (map snd (sequences s))],
          inflight := inflight s @ [(getStorageKey cfg, map snd (sequences s))]\<rparr>"
    by (cases ev) (simp_all add: persist_def values_of_def map_values_def)
  have settle: "effects (persist_resume cfg i r s) =
       effects s @ (if i < length (inflight s) \<and> r = Resolves () then [Emit Sync] else [])"
    by (cases r) (simp_all add: persist_resume_def)
  have other: "(\<forall>j q. c \<noteq> Settle j q) \<and> (\<forall>w \<in> set ws. \<forall>j q. w \<noteq> Settle j q) \<longrightarrow>
        (\<exists>new. effects (fst (step cfg (s, ws) c)) = effects s @ new \<and> Emit Sync \<notin> set new)"
    using extends_step [of c ws cfg s] unfolding extends_def by blast
  have order: "\<exists>m. unsynced_writes (effects (run cfg calls)) = Some m
          \<and> length (inflight (run cfg calls)) \<le> m"
    using log_invariant_run [of cfg calls] unfolding log_invariant_def by blast
  from publish settle other order show ?thesis
    by blast
qed

theorem publish_issues_one_write_then_sync_witness:
  "Deleted ''t1'' example_sequence example_reason \<noteq> Sync
   \<and> Deleted ''t1'' example_sequence example_reason \<noteq> Enabled
   \<and> effects (emit example_config (Deleted ''t1'' example_sequence example_reason)
                (restored_state\<lparr>sequences := [(JStr ''t2'', other_sequence)]\<rparr>))
       = [GetItem ''wc@2:client//session:pending'', Emit Enabled,
          Emit (Deleted ''t1'' example_sequence example_reason),
          SetItem ''wc@2:client//session:pending'' [other_sequence]]
   \<and> Updated ''t1'' example_sequence example_patch \<noteq> Sync
   \<and> Updated ''t1'' example_sequence example_patch \<noteq> Enabled
   \<and> effects (emit example_config (Updated ''t1'' example_sequence example_patch)
                restored_state)
       = [GetItem ''wc@2:client//session:pending'', Emit Enabled,
          Emit (Updated ''t1'' example_sequence example_patch),
          SetItem ''wc@2:client//session:pending'' [example_sequence, other_sequence]]
   \<and> inflight (emit example_config (Updated ''t1'' example_sequence example_patch)
                 restored_state)
       = [(''wc@2:client//session:pending'', [example_sequence, other_sequence])]
   \<and> (\<forall>j q. Init (Resolves (JArr [example_sequence])) \<noteq> Settle j q)
   \<and> (\<forall>j q. Update ''t1'' example_patch \<noteq> Settle j q)
   \<and> (\<exists>new. effects (fst (step example_config (pending_state, [Update ''t1'' example_patch])
                               (Init (Resolves (JArr [example_sequence])))))
                = effects pending_state @ new
              \<and> Emit Sync \<notin> set new)
   \<and> SetItem ''wc@2:client//session:pending''
         [JObj (fmupd ''v'' (JNum 2) (fmupd ''topic'' (JStr ''t1'') fmempty))]
       \<in> set (effects (fst (step example_config (pending_state, [Update ''t1'' example_patch])
                               (Init (Resolves (JArr [example_sequence]))))))
   \<and> unsynced_writes (effects (run example_config waiting_calls)) = Some 0"
proof -
  have "emit example_config (Deleted ''t1'' example_sequence example_reason)
          (restored_state\<lparr>sequences := [(JStr ''t2'', other_sequence)]\<rparr>) =
        restored_state
          \<lparr>sequences := [(JStr ''t2'', other_sequence)],
           effects := effects restored_state @
             [Emit (Deleted ''t1'' example_sequence example_reason),
              SetItem (getStorageKey example_config) (map snd [(JStr ''t2'', other_sequence)])],
           inflight := inflight restored_state @
             [(getStorageKey example_config, map snd [(JStr ''t2'', other_sequence)])]\<rparr>"
    using publish_issues_one_write_then_sync
            [of "Deleted ''t1'' example_sequence example_reason" example_config
               "restored_state\<lparr>sequences := [(JStr ''t2'', other_sequence)]\<rparr>"]
    by simp
  then have deleted:
    "effects (emit example_config (Deleted ''t1'' example_sequence example_reason)
                (restored_state\<lparr>sequences := [(JStr ''t2'', other_sequence)]\<rparr>))
       = [GetItem ''wc@2:client//session:pending'', Emit Enabled,
          Emit (Deleted ''t1'' example_sequence example_reason),
          SetItem ''wc@2:client//session:pending'' [other_sequence]]"
    by (simp add: example_storage_key restored_state_eq)
  have "emit example_config (Updated ''t1'' example_sequence example_patch) restored_state =
        restored_state
          \<lparr>effects := effects restored_state @
             [Emit (Updated ''t1'' example_sequence example_patch),
              SetItem (getStorageKey example_config) (map snd (sequences restored_state))],
           inflight := inflight restored_state @
             [(getStorageKey example_config, map snd (sequences restored_state))]\<rparr>"
    using publish_issues_one_write_then_sync
            [of "Updated ''t1'' example_sequence example_patch" example_config restored_state]
    by simp
  then have updated:
    "effects (emit example_config (Updated ''t1'' example_sequence example_patch)
                restored_state)
       = [GetItem ''wc@2:client//session:pending'', Emit Enabled,
          Emit (Updated ''t1'' example_sequence example_patch),
          SetItem ''wc@2:client//session:pending'' [example_sequence, other_sequence]]
     \<and> inflight (emit example_config (Updated ''t1'' example_sequence example_patch)
                 restored_state)
       = [(''wc@2:client//session:pending'', [example_sequence, other_sequence])]"
    by (simp add: example_storage_key restored_state_eq)
  have is_init: "\<forall>j q. Init (Resolves (JArr [example_sequence])) \<noteq> Settle j q"
    by simp
  have is_update: "\<forall>j q. Update ''t1'' example_patch \<noteq> Settle j q"
    by simp
  have waiting: "\<forall>w \<in> set [Update ''t1'' example_patch]. \<forall>j q. w \<noteq> Settle j q"
    by simp
  have quiet:
    "\<exists>new. effects (fst (step example_config (pending_state, [Update ''t1'' example_patch])
                            (Init (Resolves (JArr [example_sequence])))))
             = effects pending_state @ new
           \<and> Emit Sync \<notin> set new"
    using publish_issues_one_write_then_sync
            [of _ example_config pending_state _ _ "Init (Resolves (JArr [example_sequence]))"
               "[Update ''t1'' example_patch]"]
          is_init waiting
    by blast
  have released:
    "SetItem ''wc@2:client//session:pending''
         [JObj (fmupd ''v'' (JNum 2) (fmupd ''topic'' (JStr ''t1'') fmempty))]
       \<in> set (effects (fst (step example_config (pending_state, [Update ''t1'' example_patch])
                               (Init (Resolves (JArr [example_sequence]))))))"
    by (simp add: init_releases_waiting_update)
  have paired: "unsynced_writes (effects (run example_config waiting_calls)) = Some 0"
    by (simp add: waiting_run unsynced_writes_def)
  from deleted updated is_init is_update quiet released paired show ?thesis
    by simp
qed

end
